theory Spec2Isabelle
  imports Main "HOL-Library.List_Lexorder"
begin


section \<open>Python strings\<close>

text \<open>
  A Python \<open>str\<close> is a sequence of Unicode code points and \<open>len\<close> counts code points,
  so a text is a list of code points. A \<open>bytes\<close> object is a list of 8-bit characters.
  \<open>str\<close> embeds an ASCII literal as a text.
\<close>

type_synonym pystr = "nat list"

definition str :: "string \<Rightarrow> pystr" where
  "str s = map of_char s"

definition NL :: nat where "NL = 10"
definition CR :: nat where "CR = 13"
definition EQ :: nat where "EQ = 61"
definition HASH :: nat where "HASH = 35"
definition DOT :: nat where "DOT = 46"
definition SLASH :: nat where "SLASH = 47"
definition BACKSLASH :: nat where "BACKSLASH = 92"

text \<open>The characters \<open>str.strip\<close> and \<open>str.lstrip\<close> remove: Unicode whitespace.\<close>

definition is_space :: "nat \<Rightarrow> bool" where
  "is_space c = ((9 \<le> c \<and> c \<le> 13) \<or> (28 \<le> c \<and> c \<le> 32) \<or> c = 133 \<or> c = 160
     \<or> c = 5760 \<or> (8192 \<le> c \<and> c \<le> 8202) \<or> c = 8232 \<or> c = 8233 \<or> c = 8239
     \<or> c = 8287 \<or> c = 12288)"

text \<open>The line boundaries of \<open>str.splitlines\<close>: LF, VT, FF, CR, FS, GS, RS, NEL, LS, PS.\<close>

definition is_linebreak :: "nat \<Rightarrow> bool" where
  "is_linebreak c = ((10 \<le> c \<and> c \<le> 13) \<or> (28 \<le> c \<and> c \<le> 30) \<or> c = 133
     \<or> c = 8232 \<or> c = 8233)"

text \<open>
  \<open>text.splitlines()\<close>: the text is cut at every line boundary, CR LF counting as one;
  the boundaries are dropped, and a boundary at the very end opens no further line.
  \<open>splitlines_from cur s\<close> scans \<open>s\<close> with \<open>cur\<close> the characters of the line being read.
\<close>

fun splitlines_from :: "pystr \<Rightarrow> pystr \<Rightarrow> pystr list" where
  "splitlines_from cur [] = (if cur = [] then [] else [cur])"
| "splitlines_from cur (c # cs) =
     (if is_linebreak c then
        (case cs of
           d # ds \<Rightarrow> if c = CR \<and> d = NL then cur # splitlines_from [] ds
                     else cur # splitlines_from [] cs
         | [] \<Rightarrow> cur # splitlines_from [] cs)
      else splitlines_from (cur @ [c]) cs)"

definition splitlines :: "pystr \<Rightarrow> pystr list" where
  "splitlines s = splitlines_from [] s"

text \<open>\<open>sep.join(xs)\<close>.\<close>

fun join :: "pystr \<Rightarrow> pystr list \<Rightarrow> pystr" where
  "join sep [] = []"
| "join sep [x] = x"
| "join sep (x # y # ys) = x @ sep @ join sep (y # ys)"

definition lstrip :: "pystr \<Rightarrow> pystr" where
  "lstrip s = dropWhile is_space s"

definition strip :: "pystr \<Rightarrow> pystr" where
  "strip s = rev (dropWhile is_space (rev (dropWhile is_space s)))"

definition startswith :: "pystr \<Rightarrow> pystr \<Rightarrow> bool" where
  "startswith s p = (take (length p) s = p)"

text \<open>\<open>line.split("=", 1)[0]\<close>: the part of the line before the first \<open>=\<close>.\<close>

definition before_eq :: "pystr \<Rightarrow> pystr" where
  "before_eq line = takeWhile (\<lambda>c. c \<noteq> EQ) line"

section \<open>The content sanitizer and truncator (collector.py)\<close>

definition MAX_FILE_BYTES :: nat where "MAX_FILE_BYTES = 512 * 1024"
definition MAX_TOTAL_BYTES :: nat where "MAX_TOTAL_BYTES = 5 * 1024 * 1024"
definition LOCK_MAX_LINES :: nat where "LOCK_MAX_LINES = 200"
definition CONFIG_MAX_LINES :: nat where "CONFIG_MAX_LINES = 800"

definition PLACEHOLDER :: pystr where
  "PLACEHOLDER = str ''=<YOUR_VALUE>''"

text \<open>The body of the loop of \<open>sanitize_env\<close>: the element appended to \<open>out\<close> for one line.\<close>

definition sanitize_line :: "pystr \<Rightarrow> pystr" where
  "sanitize_line line =
     (if EQ \<in> set line \<and> \<not> startswith (lstrip line) [HASH] then
        (let k = strip (before_eq line) in
         if k \<noteq> [] then k @ PLACEHOLDER else line)
      else line)"

fun sanitize_loop :: "pystr list \<Rightarrow> pystr list \<Rightarrow> pystr list" where
  "sanitize_loop [] out = out"
| "sanitize_loop (line # rest) out = sanitize_loop rest (out @ [sanitize_line line])"

definition sanitize_env :: "pystr \<Rightarrow> pystr" where
  "sanitize_env t = join [NL] (sanitize_loop (splitlines t) [])"

definition TRUNCATED :: pystr where
  "TRUNCATED = [NL, NL] @ str ''# ...truncated...'' @ [NL]"

definition head_lines :: "pystr \<Rightarrow> nat \<Rightarrow> pystr" where
  "head_lines t n =
     (let lines = splitlines t in
      if length lines \<le> n then t else join [NL] (take n lines) @ TRUNCATED)"

section \<open>Paths (pathlib, POSIX flavour)\<close>

text \<open>\<open>s.rfind(c)\<close>: the last index of \<open>c\<close> in \<open>s\<close>, or \<open>-1\<close>.\<close>

definition rfind :: "nat \<Rightarrow> pystr \<Rightarrow> int" where
  "rfind c s =
     (if c \<in> set s then int (length s) - 1 - int (length (takeWhile (\<lambda>x. x \<noteq> c) (rev s)))
      else - 1)"

text \<open>
  \<open>Path.suffix\<close> of a path whose final component is \<open>name\<close>: the part from the last dot
  on, when that dot is neither the first nor the last character of the name.
\<close>

definition suffix :: "pystr \<Rightarrow> pystr" where
  "suffix name =
     (let i = rfind DOT name in
      if 0 < i \<and> i < int (length name) - 1 then drop (nat i) name else [])"

text \<open>\<open>s.split(sep)\<close> for a one-character separator.\<close>

fun split_from :: "nat \<Rightarrow> pystr \<Rightarrow> pystr \<Rightarrow> pystr list" where
  "split_from sep cur [] = [cur]"
| "split_from sep cur (c # cs) =
     (if c = sep then cur # split_from sep [] cs else split_from sep (cur @ [c]) cs)"

text \<open>
  \<open>Path(rel).name\<close>: the last component of \<open>rel\<close>, where empty components and
  \<open>.\<close> components do not count; the empty string when there is none.
\<close>

definition path_name :: "pystr \<Rightarrow> pystr" where
  "path_name rel =
     (case filter (\<lambda>c. c \<noteq> [] \<and> c \<noteq> [DOT]) (split_from SLASH [] rel) of
        [] \<Rightarrow> []
      | c # cs \<Rightarrow> last (c # cs))"

text \<open>
  \<open>str.lower\<close> on the letters \<open>A\<close> to \<open>Z\<close>. The result is only compared with the
  four README names, and no code point outside \<open>A\<close> to \<open>Z\<close> lowercases to a letter of
  these names.
\<close>

definition lower :: "pystr \<Rightarrow> pystr" where
  "lower s = map (\<lambda>c. if 65 \<le> c \<and> c \<le> 90 then c + 32 else c) s"

text \<open>
  \<open>str(p.relative_to(rootp)).replace("\\", "/")\<close> for the file \<open>fn\<close> of the directory
  whose components below the root are \<open>dp\<close>.
\<close>

definition relpath :: "pystr list \<Rightarrow> pystr \<Rightarrow> pystr" where
  "relpath dp fn = map (\<lambda>c. if c = BACKSLASH then SLASH else c) (join [SLASH] (dp @ [fn]))"

section \<open>The path filter (collector.py)\<close>

text \<open>
  The tables of \<open>readmegen.collector.import_filenames\<close>; the functions below take them
  as a parameter.
\<close>

record policy =
  INCLUDE_EXTS :: "pystr set"
  KEY_FILENAMES :: "pystr set"
  LOCK_BASENAMES :: "pystr set"
  SKIP_DIRS :: "pystr set"

definition should_include :: "policy \<Rightarrow> pystr \<Rightarrow> bool" where
  "should_include pol name =
     (suffix name \<in> INCLUDE_EXTS pol \<or> name \<in> KEY_FILENAMES pol
      \<or> startswith name (str ''.env''))"

definition is_lock_like :: "policy \<Rightarrow> pystr \<Rightarrow> bool" where
  "is_lock_like pol name = (name \<in> LOCK_BASENAMES pol \<or> suffix name = str ''.lock'')"

section \<open>Reading a file (collector.py)\<close>

text \<open>
  \<open>bytes.decode("utf-8", errors="ignore")\<close> on byte values: a well-formed sequence gives
  its code point; at an ill-formed one the bytes read so far are dropped and decoding
  resumes at the offending byte; a sequence cut off by the end of the data is dropped.
\<close>

definition is_cont :: "nat \<Rightarrow> bool" where
  "is_cont c = (128 \<le> c \<and> c \<le> 191)"

definition second_ok3 :: "nat \<Rightarrow> nat \<Rightarrow> bool" where
  "second_ok3 b c =
     (if b = 224 then 160 \<le> c \<and> c \<le> 191
      else if b = 237 then 128 \<le> c \<and> c \<le> 159
      else is_cont c)"

definition second_ok4 :: "nat \<Rightarrow> nat \<Rightarrow> bool" where
  "second_ok4 b c =
     (if b = 240 then 144 \<le> c \<and> c \<le> 191
      else if b = 244 then 128 \<le> c \<and> c \<le> 143
      else is_cont c)"

fun utf8_ignore :: "nat list \<Rightarrow> pystr" where
  "utf8_ignore [] = []"
| "utf8_ignore (b # bs) =
     (if b < 128 then b # utf8_ignore bs
      else if 194 \<le> b \<and> b \<le> 223 then
        (case bs of
           [] \<Rightarrow> []
         | c # cs \<Rightarrow>
             if is_cont c then ((b - 192) * 64 + (c - 128)) # utf8_ignore cs
             else utf8_ignore bs)
      else if 224 \<le> b \<and> b \<le> 239 then
        (case bs of
           [] \<Rightarrow> []
         | c # cs \<Rightarrow>
             if \<not> second_ok3 b c then utf8_ignore bs
             else
               (case cs of
                  [] \<Rightarrow> []
                | d # ds \<Rightarrow>
                    if is_cont d
                    then ((b - 224) * 4096 + (c - 128) * 64 + (d - 128)) # utf8_ignore ds
                    else utf8_ignore cs))
      else if 240 \<le> b \<and> b \<le> 244 then
        (case bs of
           [] \<Rightarrow> []
         | c # cs \<Rightarrow>
             if \<not> second_ok4 b c then utf8_ignore bs
             else
               (case cs of
                  [] \<Rightarrow> []
                | d # ds \<Rightarrow>
                    if \<not> is_cont d then utf8_ignore cs
                    else
                      (case ds of
                         [] \<Rightarrow> []
                       | e # es \<Rightarrow>
                           if is_cont e
                           then ((b - 240) * 262144 + (c - 128) * 4096 + (d - 128) * 64
                                 + (e - 128)) # utf8_ignore es
                           else utf8_ignore ds)))
      else utf8_ignore bs)"

text \<open>
  An exception that leaves a function of the program.
\<close>

datatype exn = OSError

text \<open>
  A directory entry that is not a directory. \<open>is_file\<close> is the outcome of
  \<open>p.is_file()\<close>: its answer, or the \<open>OSError\<close> it raises (a \<open>PermissionError\<close> when
  the entry cannot be examined; errors such as a missing target make it answer
  \<open>False\<close>). \<open>data\<close> is what \<open>open(p, "rb")\<close> and \<open>read\<close> deliver, \<open>None\<close> when either
  raises.
\<close>

record file_entry =
  is_file :: "exn + bool"
  data :: "string option"

definition read_bytes_as_text :: "file_entry \<Rightarrow> nat \<Rightarrow> pystr" where
  "read_bytes_as_text f max_bytes =
     (case data f of
        None \<Rightarrow> []
      | Some bs \<Rightarrow> utf8_ignore (map of_char (take max_bytes bs)))"

definition CONFIG_EXTS :: "pystr set" where
  "CONFIG_EXTS = {str ''.json'', str ''.yaml'', str ''.yml''}"

definition read_with_rules :: "policy \<Rightarrow> pystr \<Rightarrow> file_entry \<Rightarrow> pystr" where
  "read_with_rules pol name f =
     (let raw = read_bytes_as_text f MAX_FILE_BYTES;
          raw = (if startswith name (str ''.env'') then sanitize_env raw else raw)
      in if is_lock_like pol name then head_lines raw LOCK_MAX_LINES
         else if suffix name \<in> CONFIG_EXTS then head_lines raw CONFIG_MAX_LINES
         else raw)"

section \<open>The tree collector (collector.py)\<close>

text \<open>
  A directory as \<open>os.walk\<close> lists it: the entries that are not directories and the
  subdirectories, each in the order of the listing.
\<close>

datatype tree = Dir "(pystr \<times> file_entry) list" "(pystr \<times> tree) list"

text \<open>
  The triples \<open>os.walk(rootp)\<close> yields, top down, as (components of the directory below
  the root, its files); the pruning \<open>dirnames[:] = [d for d in dirnames if d not in
  SKIP_DIRS]\<close> is done before the walk descends.
\<close>

fun walk :: "policy \<Rightarrow> pystr list \<Rightarrow> tree \<Rightarrow> (pystr list \<times> (pystr \<times> file_entry) list) list" where
  "walk pol dp (Dir files subs) =
     (dp, files) #
     concat (map (\<lambda>(d, t). walk pol (dp @ [d]) t)
                 (filter (\<lambda>(d, t). d \<notin> SKIP_DIRS pol) subs))"

record doc =
  source :: pystr
  content :: pystr

record collection_run =
  docs :: "doc list"
  seen :: "pystr set"
  total :: nat

definition README_NAMES :: "pystr set" where
  "README_NAMES = {str ''readme'', str ''readme.md'', str ''readme.rst'', str ''readme.txt''}"

text \<open>
  How the loop over the sorted file names of one directory ends: \<open>Raised\<close> when
  \<open>p.is_file()\<close> raises, which no handler of \<open>collect\<close> catches; \<open>Returned\<close> at the early
  \<open>return {"docs": docs}\<close>; \<open>Running\<close> with the state when the loop runs to its end.
\<close>

datatype flow = Raised exn | Returned "doc list" | Running collection_run

fun collect_files ::
  "policy \<Rightarrow> bool \<Rightarrow> pystr list \<Rightarrow> (pystr \<times> file_entry) list \<Rightarrow> collection_run
     \<Rightarrow> flow" where
  "collect_files pol include_readme dp [] st = Running st"
| "collect_files pol include_readme dp ((fn, f) # rest) st =
     (case is_file f of
        Inl e \<Rightarrow> Raised e
      | Inr regular \<Rightarrow>
          if \<not> regular then collect_files pol include_readme dp rest st
          else
            let rel = relpath dp fn;
                name = lower (path_name rel)
            in if \<not> include_readme \<and> name \<in> README_NAMES
               then collect_files pol include_readme dp rest st
               else if \<not> should_include pol fn \<or> rel \<in> seen st
               then collect_files pol include_readme dp rest st
               else
                 let t = read_with_rules pol fn f;
                     st' = \<lparr>docs = docs st @ [\<lparr>source = rel, content = t\<rparr>],
                            seen = insert rel (seen st),
                            total = total st + length t\<rparr>
                 in if total st' \<ge> MAX_TOTAL_BYTES then Returned (docs st')
                    else collect_files pol include_readme dp rest st')"

text \<open>The loop over the directories of the walk, and \<open>collect\<close>: the documents, or the exception.\<close>

fun collect_dirs ::
  "policy \<Rightarrow> bool \<Rightarrow> (pystr list \<times> (pystr \<times> file_entry) list) list \<Rightarrow> collection_run
     \<Rightarrow> exn + doc list" where
  "collect_dirs pol include_readme [] st = Inr (docs st)"
| "collect_dirs pol include_readme ((dp, files) # later) st =
     (case collect_files pol include_readme dp (sort_key fst files) st of
        Raised e \<Rightarrow> Inl e
      | Returned r \<Rightarrow> Inr r
      | Running st' \<Rightarrow> collect_dirs pol include_readme later st')"

definition collect :: "policy \<Rightarrow> tree \<Rightarrow> bool \<Rightarrow> exn + doc list" where
  "collect pol root include_readme =
     collect_dirs pol include_readme (walk pol [] root) \<lparr>docs = [], seen = {}, total = 0\<rparr>"

section \<open>The selection policy (app.py)\<close>

text \<open>
  \<open>FileAssessment\<close> (assessor.py), the structured output of the scoring service. The
  field \<open>include\<close> is \<open>include_flag\<close> here.
\<close>

record assessment =
  path :: pystr
  score :: int
  include_flag :: bool
  reason :: pystr
  summary :: pystr

text \<open>A selected item is a Python dict: its keys in insertion order, with their values.\<close>

datatype pyval = PStr pystr | PInt int | PBool bool

type_synonym row = "(string \<times> pyval) list"

fun truthy :: "pyval \<Rightarrow> bool" where
  "truthy (PStr s) = (s \<noteq> [])"
| "truthy (PInt i) = (i \<noteq> 0)"
| "truthy (PBool b) = b"

text \<open>\<open>d.pop(k, None)\<close> and \<open>d[k] = v\<close>.\<close>

definition dict_pop :: "string \<Rightarrow> row \<Rightarrow> row" where
  "dict_pop k d = filter (\<lambda>kv. fst kv \<noteq> k) d"

fun dict_set :: "string \<Rightarrow> pyval \<Rightarrow> row \<Rightarrow> row" where
  "dict_set k v [] = [(k, v)]"
| "dict_set k v (kv # d) = (if fst kv = k then (k, v) # d else kv # dict_set k v d)"

definition model_dump :: "assessment \<Rightarrow> row" where
  "model_dump a =
     [(''path'', PStr (path a)), (''score'', PInt (score a)),
      (''include'', PBool (include_flag a)), (''reason'', PStr (reason a)),
      (''summary'', PStr (summary a))]"

text \<open>
  The body of \<open>if ok:\<close> in \<open>build_selected\<close>. A collected document always has the key
  \<open>source\<close>, so \<open>src.get("source", "UNKNOWN_PATH")\<close> is its source.
\<close>

definition selected_row :: "assessment \<Rightarrow> doc \<Rightarrow> row" where
  "selected_row a src =
     (let row = model_dump a;
          row = dict_pop ''summary'' row;
          row = dict_set ''content'' (PStr (content src)) row
      in dict_set ''path''
           (case map_of row ''path'' of
              Some v \<Rightarrow> if truthy v then v else PStr (source src)
            | None \<Rightarrow> PStr (source src))
           row)"

text \<open>
  The loop of \<open>build_selected\<close> over \<open>zip(assessments, docs)\<close>. On an assessment of the
  type above and a collected document no statement of the \<open>try\<close> block raises, so the
  \<open>except\<close> branch is never taken and \<open>logs\<close> is left as it is.
\<close>

fun select_loop :: "(assessment \<times> doc) list \<Rightarrow> int \<Rightarrow> row list \<Rightarrow> row list" where
  "select_loop [] relevance selected = selected"
| "select_loop ((a, src) # rest) relevance selected =
     (let ok = (include_flag a \<and> score a \<ge> relevance)
      in if ok then select_loop rest relevance (selected @ [selected_row a src])
         else select_loop rest relevance selected)"

text \<open>\<open>assess_files\<close> is the external scoring service: a parameter.\<close>

definition build_selected ::
  "(doc list \<Rightarrow> assessment list) \<Rightarrow> doc list \<Rightarrow> int \<Rightarrow> row list \<times> assessment list" where
  "build_selected assess_files ds relevance =
     (let assessments = assess_files ds
      in (select_loop (zip assessments ds) relevance [], assessments))"

datatype api_error = Missing_path | Not_a_directory | No_documents | Key_error | Unhandled exn

record api_response =
  readme :: pystr
  selected_paths :: "pyval list"
  count_collected :: nat
  count_selected :: nat

text \<open>
  \<open>api_generate\<close> without its log trail and without the write of the output file.
  \<open>project\<close> is the directory \<open>raw_path\<close> resolves to, \<open>None\<close> when it is not a
  directory; \<open>generate_readme_from\<close> is the external synthesizer. An exception of
  \<open>collect\<close> is not caught and ends the request.
\<close>

definition api_generate ::
  "policy \<Rightarrow> (doc list \<Rightarrow> assessment list) \<Rightarrow> (row list \<Rightarrow> pystr) \<Rightarrow> pystr \<Rightarrow> tree option
     \<Rightarrow> int \<Rightarrow> api_error + api_response" where
  "api_generate pol assess_files generate_readme_from raw_path project relevance =
     (if raw_path = [] then Inl Missing_path
      else (case project of
        None \<Rightarrow> Inl Not_a_directory
      | Some root \<Rightarrow>
          (case collect pol root False of
             Inl e \<Rightarrow> Inl (Unhandled e)
           | Inr ds \<Rightarrow>
               if ds = [] then Inl No_documents
               else
                 let (selected, assessments) = build_selected assess_files ds relevance;
                     selected =
                       (if selected \<noteq> [] then selected
                        else map (\<lambda>d. [(''path'', PStr (source d)),
                                        (''content'', PStr (content d))]) ds);
                     readme_md = generate_readme_from selected
                 in (case those (map (\<lambda>d. map_of d ''path'') selected) of
                       None \<Rightarrow> Inl Key_error
                     | Some paths \<Rightarrow>
                         Inr \<lparr>readme = readme_md, selected_paths = paths,
                              count_collected = length ds,
                              count_selected = length selected\<rparr>))))"

section \<open>Auxiliary notions for the statements\<close>

text \<open>\<open>s.endswith(p)\<close>.\<close>

definition endswith :: "pystr \<Rightarrow> pystr \<Rightarrow> bool" where
  "endswith s p = (length p \<le> length s \<and> drop (length s - length p) s = p)"

text \<open>
  The lines \<open>sanitize_env\<close> rewrites: those that contain \<open>=\<close>, whose first character
  after leading whitespace is not \<open>#\<close>, and whose part before the first \<open>=\<close> is not
  all whitespace.
\<close>

definition redacts :: "pystr \<Rightarrow> bool" where
  "redacts l = (EQ \<in> set l \<and> \<not> startswith (lstrip l) [HASH] \<and> strip (before_eq l) \<noteq> [])"

text \<open>
  The redaction as the specification words it: on a line that contains \<open>=\<close> and is not a
  comment the value after the first \<open>=\<close> is replaced and the key is kept as it is; every
  other line is kept.
\<close>

definition spec_redact_line :: "pystr \<Rightarrow> pystr" where
  "spec_redact_line l =
     (if EQ \<in> set l \<and> \<not> startswith (lstrip l) [HASH] then before_eq l @ PLACEHOLDER else l)"

definition spec_sanitize_env :: "pystr \<Rightarrow> pystr" where
  "spec_sanitize_env t = join [NL] (map spec_redact_line (splitlines t))"

text \<open>
  The text \<open>read_with_rules\<close> hands to \<open>head_lines\<close>, and the cap it passes for a file
  that is lock-like or has a structured-config extension.
\<close>

definition prepared_text :: "pystr \<Rightarrow> file_entry \<Rightarrow> pystr" where
  "prepared_text name f =
     (let raw = read_bytes_as_text f MAX_FILE_BYTES
      in if startswith name (str ''.env'') then sanitize_env raw else raw)"

definition line_cap :: "policy \<Rightarrow> pystr \<Rightarrow> nat" where
  "line_cap pol name = (if is_lock_like pol name then LOCK_MAX_LINES else CONFIG_MAX_LINES)"

subsection \<open>Sample inputs\<close>

text \<open>Sample tables; the statements that use them do not depend on the choice.\<close>

definition sample_policy :: policy where
  "sample_policy =
     \<lparr>INCLUDE_EXTS = {str ''.py'', str ''.md'', str ''.json''},
      KEY_FILENAMES = {str ''Dockerfile'', str ''package.json''},
      LOCK_BASENAMES = {str ''package-lock.json'', str ''yarn.lock''},
      SKIP_DIRS = {str ''.git'', str ''node_modules''}\<rparr>"

text \<open>An env file of 200 assignments followed by one empty line: 201 lines.\<close>

definition env_lock_file :: file_entry where
  "env_lock_file =
     \<lparr>is_file = Inr True, data = Some (concat (replicate 200 ''A=1\<newline>'') @ ''\<newline>'')\<rparr>"

text \<open>
  A small project: two sources, an env file, a README and a dependency directory.
\<close>

definition sample_file :: "string \<Rightarrow> file_entry" where
  "sample_file bs = \<lparr>is_file = Inr True, data = Some bs\<rparr>"

definition sample_tree :: tree where
  "sample_tree =
     Dir [(str ''app.py'', sample_file ''print(1)''),
          (str ''README.md'', sample_file ''# old''),
          (str ''.env'', sample_file ''API_KEY=secret123'')]
         [(str ''node_modules'', Dir [(str ''x.py'', sample_file ''1'')] []),
          (str ''src'', Dir [(str ''b.py'', sample_file ''b = 2'')] [])]"


subsection \<open>The collection, stage by stage\<close>

text \<open>
  The files of a directory that pass the checks of the loop body which do not depend on
  the run so far, and the document the body builds for such a file.
\<close>

definition eligible :: "policy \<Rightarrow> bool \<Rightarrow> pystr list \<Rightarrow> pystr \<times> file_entry \<Rightarrow> bool" where
  "eligible pol include_readme dp e =
     (is_file (snd e) = Inr True
      \<and> (include_readme \<or> lower (path_name (relpath dp (fst e))) \<notin> README_NAMES)
      \<and> should_include pol (fst e))"

definition mkdoc :: "policy \<Rightarrow> pystr list \<Rightarrow> pystr \<times> file_entry \<Rightarrow> doc" where
  "mkdoc pol dp e = \<lparr>source = relpath dp (fst e), content = read_with_rules pol (fst e) (snd e)\<rparr>"

text \<open>
  What the visit of one file contributes, whatever the run so far: the exception of
  \<open>p.is_file()\<close>, a candidate document, or nothing. The events of a tree follow the
  order of the visit: directory after directory as \<open>walk\<close> yields them, and within a
  directory by sorted file name.
\<close>

datatype event = Fails exn | Cand doc

definition visit :: "policy \<Rightarrow> bool \<Rightarrow> pystr list \<Rightarrow> pystr \<times> file_entry \<Rightarrow> event list" where
  "visit pol include_readme dp e =
     (case is_file (snd e) of
        Inl x \<Rightarrow> [Fails x]
      | Inr regular \<Rightarrow>
          if eligible pol include_readme dp e then [Cand (mkdoc pol dp e)] else [])"

definition dir_events ::
  "policy \<Rightarrow> bool \<Rightarrow> pystr list \<times> (pystr \<times> file_entry) list \<Rightarrow> event list" where
  "dir_events pol include_readme d =
     concat (map (visit pol include_readme (fst d)) (sort_key fst (snd d)))"

definition events :: "policy \<Rightarrow> bool \<Rightarrow> tree \<Rightarrow> event list" where
  "events pol include_readme root =
     concat (map (dir_events pol include_readme) (walk pol [] root))"

fun cands_of :: "event list \<Rightarrow> doc list" where
  "cands_of [] = []"
| "cands_of (Fails x # es) = cands_of es"
| "cands_of (Cand d # es) = d # cands_of es"

fun no_failure :: "event list \<Rightarrow> bool" where
  "no_failure [] = True"
| "no_failure (Fails x # es) = False"
| "no_failure (Cand d # es) = no_failure es"

text \<open>The candidate documents of a directory and of a tree, in the order of the visit.\<close>

definition dir_candidates ::
  "policy \<Rightarrow> bool \<Rightarrow> pystr list \<times> (pystr \<times> file_entry) list \<Rightarrow> doc list" where
  "dir_candidates pol include_readme d =
     map (mkdoc pol (fst d)) (filter (eligible pol include_readme (fst d)) (sort_key fst (snd d)))"

definition candidates :: "policy \<Rightarrow> bool \<Rightarrow> tree \<Rightarrow> doc list" where
  "candidates pol include_readme root =
     concat (map (dir_candidates pol include_readme) (walk pol [] root))"

text \<open>Of the documents with one source only the first is kept.\<close>

fun first_wins :: "pystr set \<Rightarrow> doc list \<Rightarrow> doc list" where
  "first_wins sn [] = []"
| "first_wins sn (d # ds) =
     (if source d \<in> sn then first_wins sn ds else d # first_wins (insert (source d) sn) ds)"

text \<open>The documents up to and including the one with which the total reaches the budget.\<close>

fun until_budget :: "nat \<Rightarrow> doc list \<Rightarrow> doc list" where
  "until_budget n [] = []"
| "until_budget n (d # ds) =
     (if n + length (content d) \<ge> MAX_TOTAL_BYTES then [d]
      else d # until_budget (n + length (content d)) ds)"

definition total_length :: "doc list \<Rightarrow> nat" where
  "total_length ds = sum_list (map (\<lambda>d. length (content d)) ds)"

text \<open>The loop body of \<open>collect\<close> run over events.\<close>

fun scan :: "collection_run \<Rightarrow> event list \<Rightarrow> flow" where
  "scan st [] = Running st"
| "scan st (Fails x # es) = Raised x"
| "scan st (Cand d # es) =
     (if source d \<in> seen st then scan st es
      else
        let st' = \<lparr>docs = docs st @ [d], seen = insert (source d) (seen st),
                   total = total st + length (content d)\<rparr>
        in if total st' \<ge> MAX_TOTAL_BYTES then Returned (docs st') else scan st' es)"

definition result_of :: "flow \<Rightarrow> exn + doc list" where
  "result_of r = (case r of Raised x \<Rightarrow> Inl x | Returned ds \<Rightarrow> Inr ds | Running st \<Rightarrow> Inr (docs st))"




subsection \<open>Strict decoding\<close>



subsection \<open>More sample inputs\<close>


text \<open>
  A file name with a backslash beside a directory: both \<open>a\b.py\<close> and \<open>a/b.py\<close> have the
  normalized relative path \<open>a/b.py\<close>.
\<close>

definition clash_tree :: tree where
  "clash_tree =
     Dir [(str ''a'' @ [BACKSLASH] @ str ''b.py'', sample_file ''first'')]
         [(str ''a'', Dir [(str ''b.py'', sample_file ''second''),
                           (str ''c.py'', sample_file ''third'')] [])]"





text \<open>Eleven sources of 524287 bytes each, one byte below the per-file cap.\<close>

definition big_file :: file_entry where
  "big_file = \<lparr>is_file = Inr True, data = Some (replicate 524287 CHR ''x'')\<rparr>"

definition big_tree :: tree where
  "big_tree =
     Dir (map (\<lambda>n. (str n, big_file))
            [''a.py'', ''b.py'', ''c.py'', ''d.py'', ''e.py'', ''f.py'', ''g.py'', ''h.py'',
             ''i.py'', ''j.py'', ''k.py''])
         []"

text \<open>
  A scoring service that answers from the source alone, and one that rejects every
  document; a synthesizer that lists the paths it was given.
\<close>

definition sample_assess :: "doc list \<Rightarrow> assessment list" where
  "sample_assess ds =
     map (\<lambda>d. \<lparr>path = (if source d = str ''app.py'' then [] else source d),
               score = (if source d = str ''.env'' then 2 else 4),
               include_flag = (source d \<noteq> str ''src/b.py''),
               reason = str ''r'', summary = str ''s''\<rparr>) ds"

definition reject_all :: "doc list \<Rightarrow> assessment list" where
  "reject_all ds =
     map (\<lambda>d. \<lparr>path = source d, score = 5, include_flag = False,
               reason = str ''r'', summary = str ''s''\<rparr>) ds"

definition list_paths :: "row list \<Rightarrow> pystr" where
  "list_paths rows =
     join [NL] (map (\<lambda>r. case map_of r ''path'' of Some (PStr p) \<Rightarrow> p | _ \<Rightarrow> []) rows)"

definition sample_docs :: "doc list" where
  "sample_docs =
     [\<lparr>source = str ''.env'', content = str ''API_KEY=<YOUR_VALUE>''\<rparr>,
      \<lparr>source = str ''app.py'', content = str ''print(1)''\<rparr>,
      \<lparr>source = str ''src/b.py'', content = str ''b = 2''\<rparr>]"

text \<open>The documents of the eleven sources.\<close>

definition big_docs :: "doc list" where
  "big_docs =
     map (\<lambda>n. \<lparr>source = str n, content = replicate 524287 120\<rparr>)
       [''a.py'', ''b.py'', ''c.py'', ''d.py'', ''e.py'', ''f.py'', ''g.py'', ''h.py'',
        ''i.py'', ''j.py'', ''k.py'']"

section \<open>Lines: splitting and joining\<close>

lemma NL_linebreak: "is_linebreak NL" "NL \<noteq> CR"
  by (simp_all add: is_linebreak_def NL_def CR_def)

lemma splitlines_from_plain:
  "\<forall>c\<in>set l. \<not> is_linebreak c \<Longrightarrow>
   splitlines_from cur (l @ rest) = splitlines_from (cur @ l) rest"
  by (induction l arbitrary: cur) auto

lemma splitlines_from_NL: "splitlines_from cur (NL # rest) = cur # splitlines_from [] rest"
  by (cases rest) (simp_all add: NL_linebreak)

lemma splitlines_from_line_NL:
  assumes "\<forall>c\<in>set l. \<not> is_linebreak c"
  shows "splitlines_from [] (l @ NL # rest) = l # splitlines_from [] rest"
proof -
  have "splitlines_from [] (l @ NL # rest) = splitlines_from ([] @ l) (NL # rest)"
    using assms by (rule splitlines_from_plain)
  then show ?thesis by (simp add: splitlines_from_NL del: splitlines_from.simps)
qed

lemma splitlines_from_last_line:
  assumes "\<forall>c\<in>set l. \<not> is_linebreak c"
  shows "splitlines_from [] l = (if l = [] then [] else [l])"
proof -
  have "splitlines_from [] (l @ []) = splitlines_from ([] @ l) []"
    using assms by (rule splitlines_from_plain)
  then show ?thesis by simp
qed

text \<open>
  Splitting what \<open>join\<close> built from lines without line boundaries gives the lines back,
  except for an empty last line, which is lost.
\<close>

lemma splitlines_join:
  "\<forall>l\<in>set ls. \<forall>c\<in>set l. \<not> is_linebreak c \<Longrightarrow>
   splitlines (join [NL] ls) = (if ls \<noteq> [] \<and> last ls = [] then butlast ls else ls)"
proof (induction "[NL]" ls rule: join.induct)
  case 1
  then show ?case by (simp add: splitlines_def)
next
  case (2 x)
  then show ?case by (simp add: splitlines_def splitlines_from_last_line)
next
  case (3 x y ys)
  have "splitlines (join [NL] (x # y # ys)) = x # splitlines (join [NL] (y # ys))"
    using 3(2) by (simp add: splitlines_def splitlines_from_line_NL del: splitlines_from.simps)
  then show ?case using 3 by simp
qed

lemma splitlines_from_no_break:
  "\<forall>c\<in>set cur. \<not> is_linebreak c \<Longrightarrow> l \<in> set (splitlines_from cur s) \<Longrightarrow>
   \<forall>c\<in>set l. \<not> is_linebreak c"
proof (induction s arbitrary: cur)
  case Nil
  then show ?case by (simp split: if_splits)
next
  case (Cons a s)
  have nil: "\<forall>c\<in>set ([]::nat list). \<not> is_linebreak c" by simp
  show ?case
  proof (cases "is_linebreak a")
    case False
    with Cons.prems have "l \<in> set (splitlines_from (cur @ [a]) s)" by simp
    moreover have "\<forall>c\<in>set (cur @ [a]). \<not> is_linebreak c" using Cons.prems False by simp
    ultimately show ?thesis using Cons.IH by blast
  next
    case True
    have "l = cur \<or> l \<in> set (splitlines_from [] s)"
    proof (cases s)
      case Nil
      with True Cons.prems show ?thesis by simp
    next
      case (Cons d ds)
      show ?thesis
      proof (cases "a = CR \<and> d = NL")
        case crlf: True
        with True Cons \<open>l \<in> set (splitlines_from cur (a # s))\<close>
        have "l = cur \<or> l \<in> set (splitlines_from [] ds)" by simp
        moreover have "splitlines_from [] s = [] # splitlines_from [] ds"
          using crlf Cons by (simp add: splitlines_from_NL del: splitlines_from.simps)
        ultimately show ?thesis by auto
      next
        case False
        with True Cons \<open>l \<in> set (splitlines_from cur (a # s))\<close>
        show ?thesis by auto
      qed
    qed
    then show ?thesis using Cons.IH[OF nil] Cons.prems(1) by blast
  qed
qed

lemma splitlines_plain: "l \<in> set (splitlines t) \<Longrightarrow> \<forall>c\<in>set l. \<not> is_linebreak c"
  unfolding splitlines_def using splitlines_from_no_break[of "[]"] by simp

lemma join_replicate_blank:
  "join [NL] (replicate n x @ [[], []]) = concat (replicate n (x @ [NL])) @ [NL]"
proof (induction n)
  case 0
  then show ?case by simp
next
  case (Suc n)
  obtain y ys where "replicate n x @ [[], []] = y # ys" by (cases "replicate n x @ [[], []]") auto
  then show ?case using Suc by simp
qed

lemma join_snoc_blank: "ls \<noteq> [] \<Longrightarrow> join [NL] (ls @ [[]]) = join [NL] ls @ [NL]"
  by (induction "[NL]" ls rule: join.induct) auto

lemma length_join_replicate:
  "length (join [NL] (replicate (Suc n) x)) = Suc n * length x + n"
  by (induction n) auto

section \<open>Whitespace stripping\<close>

lemma set_strip: "set (strip s) \<subseteq> set s"
proof -
  have "set (strip s) \<subseteq> set (dropWhile is_space s)"
    unfolding strip_def using set_dropWhileD by fastforce
  also have "\<dots> \<subseteq> set s" using set_dropWhileD by fastforce
  finally show ?thesis .
qed

lemma strip_no_lead:
  assumes "s \<noteq> []" "\<not> is_space (hd s)" "\<not> is_space (last s)"
  shows "strip s = s"
proof -
  have 1: "dropWhile is_space s = s" using assms by (cases s) auto
  have "rev s \<noteq> []" "\<not> is_space (hd (rev s))" using assms by (simp_all add: hd_rev)
  then have 2: "dropWhile is_space (rev s) = rev s" by (cases "rev s") auto
  show ?thesis by (simp add: strip_def 1 2)
qed

lemma strip_ends:
  assumes "strip s \<noteq> []"
  shows "\<not> is_space (hd (strip s))" "\<not> is_space (last (strip s))"
    "hd (strip s) = hd (dropWhile is_space s)"
proof -
  let ?d = "dropWhile is_space s"
  let ?r = "dropWhile is_space (rev ?d)"
  have r: "?r \<noteq> []" using assms by (simp add: strip_def)
  then have d: "?d \<noteq> []" by (metis dropWhile.simps(1) rev.simps(1))
  have "\<not> is_space (hd ?r)" using r hd_dropWhile by blast
  then show "\<not> is_space (last (strip s))" using r by (simp add: strip_def last_rev)
  have hd_d: "\<not> is_space (hd ?d)" using d hd_dropWhile by blast
  have "rev ?d = takeWhile is_space (rev ?d) @ ?r"
    by (metis takeWhile_dropWhile_id)
  then have "?d = rev ?r @ rev (takeWhile is_space (rev ?d))"
    by (metis rev_append rev_rev_ident)
  moreover have "rev ?r \<noteq> []" using r by simp
  ultimately have "hd ?d = hd (rev ?r)" by (metis hd_append2)
  then show "hd (strip s) = hd (dropWhile is_space s)" by (simp add: strip_def)
  with hd_d show "\<not> is_space (hd (strip s))" by simp
qed

lemma strip_idem: "strip (strip s) = strip s"
proof (cases "strip s = []")
  case True
  have "strip [] = []" by (simp add: strip_def)
  with True show ?thesis by simp
next
  case False
  then show ?thesis using strip_ends(1,2)[OF False] by (intro strip_no_lead)
qed

lemma strip_blank:
  assumes "\<forall>c\<in>set s. is_space c"
  shows "strip s = []"
proof -
  have d: "dropWhile is_space s = []" using assms by simp
  show ?thesis unfolding strip_def d by simp
qed

section \<open>Env redaction\<close>

lemma sanitize_loop_map: "sanitize_loop ls out = out @ map sanitize_line ls"
  by (induction ls arbitrary: out) auto

lemma sanitize_env_map: "sanitize_env t = join [NL] (map sanitize_line (splitlines t))"
  by (simp add: sanitize_env_def sanitize_loop_map)

lemma before_eq_split: "EQ \<in> set l \<Longrightarrow> \<exists>rest. l = before_eq l @ EQ # rest"
  unfolding before_eq_def
  by (metis (mono_tags, lifting) takeWhile_dropWhile_id dropWhile_eq_Nil_conv hd_dropWhile
      list.exhaust_sel)

lemma before_eq_no_eq: "EQ \<notin> set (before_eq l)"
  unfolding before_eq_def using set_takeWhileD by fastforce

lemma before_eq_append: "EQ \<notin> set k \<Longrightarrow> before_eq (k @ EQ # rest) = k"
  unfolding before_eq_def by (induction k) auto

lemma PLACEHOLDER_eq: "PLACEHOLDER = EQ # str ''<YOUR_VALUE>''"
  by (simp add: PLACEHOLDER_def str_def EQ_def)

lemma PLACEHOLDER_plain: "\<forall>c\<in>set PLACEHOLDER. \<not> is_linebreak c"
  by (simp add: PLACEHOLDER_def str_def is_linebreak_def)

lemma sanitize_line_cases:
  "sanitize_line l = (if redacts l then strip (before_eq l) @ PLACEHOLDER else l)"
  by (simp add: sanitize_line_def redacts_def Let_def)

lemma startswith_single: "startswith s [c] = (s \<noteq> [] \<and> hd s = c)"
  by (cases s) (simp_all add: startswith_def)

lemma redacts_stable:
  assumes "redacts l"
  shows "redacts (strip (before_eq l) @ PLACEHOLDER)"
    "strip (before_eq (strip (before_eq l) @ PLACEHOLDER)) = strip (before_eq l)"
proof -
  let ?k = "strip (before_eq l)"
  have k: "?k \<noteq> []" using assms by (simp add: redacts_def)
  have noeq: "EQ \<notin> set ?k" using set_strip before_eq_no_eq by blast
  have be: "before_eq (?k @ PLACEHOLDER) = ?k"
    by (simp add: PLACEHOLDER_eq before_eq_append noeq)
  show 2: "strip (before_eq (?k @ PLACEHOLDER)) = ?k" by (simp add: be strip_idem)
  obtain rest where l: "l = before_eq l @ EQ # rest"
    using assms before_eq_split redacts_def by blast
  have dk: "dropWhile is_space (before_eq l) \<noteq> []"
    using k unfolding strip_def by (metis dropWhile.simps(1) rev.simps(1))
  have ll: "lstrip l = dropWhile is_space (before_eq l) @ EQ # rest"
    unfolding lstrip_def using dk
    by (metis l dropWhile_append1 dropWhile_eq_Nil_conv)
  then have "hd (lstrip l) = hd (dropWhile is_space (before_eq l))" using dk by simp
  also have "\<dots> = hd ?k" using strip_ends(3)[OF k] by simp
  finally have hd_l: "hd (lstrip l) = hd ?k" .
  have "lstrip l \<noteq> []" using ll by simp
  then have nothash: "hd ?k \<noteq> HASH"
    using assms hd_l by (simp add: redacts_def startswith_single)
  have "lstrip (?k @ PLACEHOLDER) = ?k @ PLACEHOLDER"
    unfolding lstrip_def using k strip_ends(1)[OF k] by (cases ?k) auto
  then have "\<not> startswith (lstrip (?k @ PLACEHOLDER)) [HASH]"
    using k nothash by (simp add: startswith_single)
  then show "redacts (?k @ PLACEHOLDER)" using 2 k by (simp add: redacts_def PLACEHOLDER_eq)
qed

lemma sanitize_line_idem: "sanitize_line (sanitize_line l) = sanitize_line l"
  using redacts_stable by (simp add: sanitize_line_cases)

lemma sanitize_line_plain:
  assumes "\<forall>c\<in>set l. \<not> is_linebreak c"
  shows "\<forall>c\<in>set (sanitize_line l). \<not> is_linebreak c"
proof -
  have "set (before_eq l) \<subseteq> set l"
    unfolding before_eq_def using set_takeWhileD by fastforce
  then have "set (strip (before_eq l)) \<subseteq> set l" using set_strip by blast
  then show ?thesis using assms PLACEHOLDER_plain by (auto simp: sanitize_line_cases)
qed

lemma sanitize_line_Nil: "sanitize_line l = [] \<longleftrightarrow> l = []"
  by (auto simp: sanitize_line_cases PLACEHOLDER_eq redacts_def)

lemma blank_key_not_redacted:
  "\<forall>c\<in>set (before_eq l). is_space c \<Longrightarrow> \<not> redacts l"
  by (simp add: redacts_def strip_blank)

text \<open>The definitions a concrete text is evaluated with.\<close>

lemmas string_eval =
  sanitize_env_def spec_sanitize_env_def spec_redact_line_def splitlines_def str_def
  sanitize_line_def lstrip_def strip_def startswith_def before_eq_def PLACEHOLDER_def
  is_space_def is_linebreak_def NL_def CR_def EQ_def HASH_def Let_def

section \<open>Claims on env redaction\<close>

text \<open>
  C5, as amended. For every input text, \<open>sanitize_env\<close> rewrites exactly the lines that
  contain \<open>=\<close>, whose first character after leading whitespace is not \<open>#\<close> and whose
  part before the first \<open>=\<close> is not all whitespace: such a line becomes that part,
  stripped of surrounding whitespace, followed by \<open>=<YOUR_VALUE>\<close>. Every other line
  is kept as it is, and the result is the lines joined by newlines.
\<close>

theorem sanitize_env_redacts_lines:
  "sanitize_env t =
     join [NL]
       (map (\<lambda>l. if redacts l then strip (before_eq l) @ str ''=<YOUR_VALUE>'' else l)
            (splitlines t))"
proof -
  have "sanitize_line = (\<lambda>l. if redacts l then strip (before_eq l) @ str ''=<YOUR_VALUE>'' else l)"
    by (rule ext) (simp add: sanitize_line_cases PLACEHOLDER_def)
  then show ?thesis by (simp add: sanitize_env_map)
qed

theorem sanitize_env_redacts_lines_witness:
  "sanitize_env (str '' KEY = v\<newline># note=1\<newline>\<newline>plain\<newline>=secret123'')
     = str ''KEY=<YOUR_VALUE>\<newline># note=1\<newline>\<newline>plain\<newline>=secret123''"
  using sanitize_env_redacts_lines
    [of "str '' KEY = v\<newline># note=1\<newline>\<newline>plain\<newline>=secret123''"]
  by (simp add: string_eval)

text \<open>
  C5 as stated fails: a line with an empty key keeps its value, and a key with
  surrounding whitespace is not kept as it is.
\<close>

theorem sanitize_env_key_counterexample:
  "sanitize_env (str ''=secret123'') = str ''=secret123''
   \<and> spec_sanitize_env (str ''=secret123'') = str ''=<YOUR_VALUE>''
   \<and> sanitize_env (str '' KEY = v'') = str ''KEY=<YOUR_VALUE>''
   \<and> spec_sanitize_env (str '' KEY = v'') = str '' KEY =<YOUR_VALUE>''"
  by (simp add: string_eval)

text \<open>
  C10. A line that contains \<open>=\<close> and has nothing but whitespace before the first \<open>=\<close> is
  appended to the output as it is, at whatever position of the input it stands; as an
  input of its own it is returned unchanged.
\<close>

theorem blank_key_line_unchanged:
  assumes "EQ \<in> set line" and "\<forall>c\<in>set (before_eq line). is_space c"
  shows "sanitize_line line = line
    \<and> (\<forall>t i. i < length (splitlines t) \<and> splitlines t ! i = line \<longrightarrow>
          i < length (sanitize_loop (splitlines t) [])
          \<and> sanitize_loop (splitlines t) [] ! i = line)
    \<and> ((\<forall>c\<in>set line. \<not> is_linebreak c) \<longrightarrow> sanitize_env line = line)"
proof -
  have keep: "sanitize_line line = line"
    using blank_key_not_redacted[OF assms(2)] by (simp add: sanitize_line_cases)
  have "sanitize_env line = line" if "\<forall>c\<in>set line. \<not> is_linebreak c"
  proof -
    have "line \<noteq> []" using assms(1) by auto
    then have "splitlines line = [line]"
      using that by (simp add: splitlines_def splitlines_from_last_line)
    then show ?thesis by (simp add: sanitize_env_map keep)
  qed
  then show ?thesis using keep by (auto simp: sanitize_loop_map)
qed

theorem blank_key_line_unchanged_witness:
  "EQ \<in> set (str ''  =secret123'')
   \<and> before_eq (str ''  =secret123'') = [32, 32] \<and> is_space 32
   \<and> sanitize_env (str ''  =secret123'') = str ''  =secret123''
   \<and> sanitize_loop (splitlines (str ''A=1\<newline>  =secret123'')) [] ! 1 = str ''  =secret123''"
proof -
  have 1: "EQ \<in> set (str ''  =secret123'')" by (simp add: string_eval)
  have 0: "before_eq (str ''  =secret123'') = [32, 32] \<and> is_space 32"
    by (simp add: string_eval)
  then have 2: "\<forall>c\<in>set (before_eq (str ''  =secret123'')). is_space c" by simp
  have 3: "\<forall>c\<in>set (str ''  =secret123''). \<not> is_linebreak c" by (simp add: string_eval)
  have 4: "1 < length (splitlines (str ''A=1\<newline>  =secret123''))
           \<and> splitlines (str ''A=1\<newline>  =secret123'') ! 1 = str ''  =secret123''"
    by (simp add: string_eval)
  show ?thesis using blank_key_line_unchanged[OF 1 2] 0 1 3 4 by blast
qed

text \<open>
  C9, as amended. \<open>sanitize_env (sanitize_env s) = sanitize_env s\<close> holds exactly for the
  inputs that have fewer than two lines or whose last line is not empty; on every line
  the redaction itself is idempotent, so a value already replaced is stable.
\<close>

theorem sanitize_env_idempotent_iff:
  "(sanitize_env (sanitize_env s) = sanitize_env s
      \<longleftrightarrow> length (splitlines s) < 2 \<or> last (splitlines s) \<noteq> [])
   \<and> sanitize_line (sanitize_line l) = sanitize_line l"
proof -
  define ls where "ls = map sanitize_line (splitlines s)"
  have once: "sanitize_env s = join [NL] ls"
    by (simp add: ls_def sanitize_env_map)
  have len: "length ls = length (splitlines s)"
    by (simp add: ls_def)
  have plain: "\<forall>l\<in>set ls. \<forall>c\<in>set l. \<not> is_linebreak c"
  proof
    fix l assume "l \<in> set ls"
    then obtain l0 where "l0 \<in> set (splitlines s)" "l = sanitize_line l0"
      by (auto simp: ls_def)
    then show "\<forall>c\<in>set l. \<not> is_linebreak c"
      using splitlines_plain[of l0 s] sanitize_line_plain[of l0] by simp
  qed
  have fixed: "map sanitize_line xs = xs" if "set xs \<subseteq> set ls" for xs
  proof -
    have "sanitize_line x = x" if "x \<in> set ls" for x
      using that by (auto simp: ls_def sanitize_line_idem)
    then show ?thesis using \<open>set xs \<subseteq> set ls\<close> by (induction xs) auto
  qed
  have twice: "sanitize_env (sanitize_env s) = join [NL] (splitlines (join [NL] ls))"
  proof -
    have "set (splitlines (join [NL] ls)) \<subseteq> set ls"
      using splitlines_join[OF plain] by (auto dest: in_set_butlastD)
    then show ?thesis unfolding once by (simp add: sanitize_env_map fixed)
  qed
  have last_blank: "last ls = [] \<longleftrightarrow> last (splitlines s) = []" if "ls \<noteq> []"
    using that by (simp add: ls_def last_map sanitize_line_Nil)
  have "sanitize_env (sanitize_env s) = sanitize_env s
      \<longleftrightarrow> length (splitlines s) < 2 \<or> last (splitlines s) \<noteq> []"
  proof (cases "ls \<noteq> [] \<and> last ls = []")
    case False
    then have "splitlines (join [NL] ls) = ls"
      using splitlines_join[OF plain] by auto
    then have "sanitize_env (sanitize_env s) = sanitize_env s"
      using twice once by simp
    moreover have "length (splitlines s) < 2 \<or> last (splitlines s) \<noteq> []"
    proof (cases "ls = []")
      case True
      then show ?thesis using len by simp
    next
      case nonempty: False
      then show ?thesis using False last_blank by simp
    qed
    ultimately show ?thesis by simp
  next
    case True
    then obtain xs where xs: "ls = xs @ [[]]"
      by (metis append_butlast_last_id)
    have "splitlines (join [NL] ls) = xs"
      using splitlines_join[OF plain] xs by simp
    then have again: "sanitize_env (sanitize_env s) = join [NL] xs"
      using twice by simp
    have blank: "last (splitlines s) = []" using True last_blank by simp
    show ?thesis
    proof (cases "xs = []")
      case empty: True
      then have "length (splitlines s) < 2" using xs len by simp
      moreover have "sanitize_env s = []" using xs empty once by simp
      ultimately show ?thesis using again empty by simp
    next
      case False
      then have "sanitize_env s = join [NL] xs @ [NL]"
        using xs once by (simp add: join_snoc_blank)
      then have "sanitize_env (sanitize_env s) \<noteq> sanitize_env s" using again by simp
      moreover have "length (splitlines s) = length xs + 1" using xs len by simp
      then have "\<not> length (splitlines s) < 2" using False by (cases xs) auto
      ultimately show ?thesis using blank by simp
    qed
  qed
  then show ?thesis by (simp add: sanitize_line_idem)
qed

theorem sanitize_env_idempotent_iff_witness:
  "(length (splitlines (str ''A=1\<newline> B = 2\<newline>'')) < 2
      \<or> last (splitlines (str ''A=1\<newline> B = 2\<newline>'')) \<noteq> [])
   \<and> sanitize_env (sanitize_env (str ''A=1\<newline> B = 2\<newline>''))
       = sanitize_env (str ''A=1\<newline> B = 2\<newline>'')
   \<and> sanitize_env (str ''A=1\<newline> B = 2\<newline>'')
       = str ''A=<YOUR_VALUE>\<newline>B=<YOUR_VALUE>''"
proof -
  have 1: "last (splitlines (str ''A=1\<newline> B = 2\<newline>'')) \<noteq> []" by (simp add: string_eval)
  have 2: "sanitize_env (str ''A=1\<newline> B = 2\<newline>'')
       = str ''A=<YOUR_VALUE>\<newline>B=<YOUR_VALUE>''" by (simp add: string_eval)
  show ?thesis
    using sanitize_env_idempotent_iff[of "str ''A=1\<newline> B = 2\<newline>''"] 1 2 by blast
qed

text \<open>
  C9 as stated fails on an input that ends in an empty line: each pass takes one
  trailing newline away.
\<close>

theorem sanitize_env_idempotent_counterexample:
  "sanitize_env (str ''A=1\<newline>\<newline>'') = str ''A=<YOUR_VALUE>\<newline>''
   \<and> sanitize_env (sanitize_env (str ''A=1\<newline>\<newline>'')) = str ''A=<YOUR_VALUE>''
   \<and> sanitize_env (sanitize_env (str ''A=1\<newline>\<newline>''))
       \<noteq> sanitize_env (str ''A=1\<newline>\<newline>'')"
  by (simp add: string_eval)

section \<open>Claims on line truncation\<close>

lemma endswith_append: "endswith (a @ p) p"
  by (simp add: endswith_def)

lemma endswith_split: "endswith s p \<Longrightarrow> \<exists>a. s = a @ p"
  unfolding endswith_def by (metis append_take_drop_id)

lemma endswith_last: "endswith s p \<Longrightarrow> p \<noteq> [] \<Longrightarrow> last s = last p"
  using endswith_split by fastforce

lemma endswith_butlast: "endswith s p \<Longrightarrow> p \<noteq> [] \<Longrightarrow> endswith (butlast s) (butlast p)"
proof -
  assume "endswith s p" "p \<noteq> []"
  then obtain a where "s = a @ p" using endswith_split by blast
  then have "butlast s = a @ butlast p" using \<open>p \<noteq> []\<close> by (simp add: butlast_append)
  then show ?thesis by (simp add: endswith_append)
qed

lemma last_join:
  "ls \<noteq> [] \<Longrightarrow> last ls \<noteq> [] \<Longrightarrow>
   join [NL] ls \<noteq> [] \<and> last (join [NL] ls) = last (last ls)"
  by (induction "[NL]" ls rule: join.induct) auto

lemma utf8_ignore_ascii: "\<forall>b\<in>set bs. b < 128 \<Longrightarrow> utf8_ignore bs = bs"
  by (induction bs) auto

lemma length_concat_replicate: "length (concat (replicate n xs)) = n * length xs"
  by (induction n) auto

lemma suffix_env_lock: "suffix (str ''.env.lock'') = str ''.lock''"
  by (simp add: suffix_def rfind_def DOT_def str_def)

lemma sanitize_line_blank: "sanitize_line [] = []"
  by (simp add: sanitize_line_def)

lemma sanitize_line_A: "sanitize_line (str ''A=1'') = str ''A=<YOUR_VALUE>''"
  by (simp add: string_eval)

text \<open>The sample env file, decoded: its 200 assignments and the empty line after them.\<close>

lemma env_lock_raw:
  "read_bytes_as_text env_lock_file MAX_FILE_BYTES
     = join [NL] (replicate 200 (str ''A=1'') @ [[], []])"
proof -
  let ?d = "concat (replicate 200 ''A=1\<newline>'') @ ''\<newline>''"
  let ?t = "concat (replicate 200 (str ''A=1'' @ [NL])) @ [NL]"
  have "length ?d = 801" by (simp add: length_concat_replicate)
  then have "take MAX_FILE_BYTES ?d = ?d" by (simp add: MAX_FILE_BYTES_def)
  moreover have "map of_char ?d = ?t" by (simp add: map_concat str_def NL_def)
  moreover have "\<forall>b\<in>set ?t. b < 128" by (simp add: str_def NL_def)
  ultimately have "read_bytes_as_text env_lock_file MAX_FILE_BYTES = ?t"
    by (simp add: read_bytes_as_text_def env_lock_file_def utf8_ignore_ascii)
  then show ?thesis by (simp only: join_replicate_blank)
qed

lemma env_lock_lines:
  "splitlines (read_bytes_as_text env_lock_file MAX_FILE_BYTES) = replicate 200 (str ''A=1'') @ [[]]"
proof -
  have "\<forall>l\<in>set (replicate 200 (str ''A=1'') @ [[], []]). \<forall>c\<in>set l. \<not> is_linebreak c"
    by (simp add: str_def is_linebreak_def)
  from splitlines_join[OF this] show ?thesis
    by (simp add: env_lock_raw butlast_append)
qed

lemma env_lock_sanitized:
  "sanitize_env (read_bytes_as_text env_lock_file MAX_FILE_BYTES)
     = join [NL] (replicate 200 (str ''A=<YOUR_VALUE>'') @ [[]])"
  by (simp add: sanitize_env_map env_lock_lines sanitize_line_A sanitize_line_blank)

lemma env_lock_sanitized_lines:
  "splitlines (join [NL] (replicate 200 (str ''A=<YOUR_VALUE>'') @ [[]]))
     = replicate 200 (str ''A=<YOUR_VALUE>'')"
proof -
  have "\<forall>l\<in>set (replicate 200 (str ''A=<YOUR_VALUE>'') @ [[]]). \<forall>c\<in>set l. \<not> is_linebreak c"
    by (simp add: str_def is_linebreak_def)
  from splitlines_join[OF this] show ?thesis
    by simp
qed

text \<open>
  C4, as amended. For a file that is lock-like (cap 200) or, if not, has the extension
  \<open>.json\<close>, \<open>.yaml\<close> or \<open>.yml\<close> (cap 800), take the text handed to the truncator: the
  decoded text, after env redaction when the basename starts with \<open>.env\<close>. If that text
  has more lines than the cap, the stored content is its first cap lines joined by
  newlines with the truncation marker appended, and so ends in the marker; if it has at
  most cap lines, the stored content is that text, with no marker appended.
\<close>

theorem read_with_rules_line_cap:
  assumes "is_lock_like pol name \<or> suffix name \<in> CONFIG_EXTS"
  shows "read_with_rules pol name f =
           (if line_cap pol name < length (splitlines (prepared_text name f))
            then join [NL] (take (line_cap pol name) (splitlines (prepared_text name f)))
                   @ TRUNCATED
            else prepared_text name f)
    \<and> (line_cap pol name < length (splitlines (prepared_text name f))
          \<longrightarrow> endswith (read_with_rules pol name f) TRUNCATED)
    \<and> line_cap pol name = (if is_lock_like pol name then 200 else 800)
    \<and> (\<not> startswith name (str ''.env'')
          \<longrightarrow> prepared_text name f = read_bytes_as_text f MAX_FILE_BYTES)"
proof -
  have rw: "read_with_rules pol name f = head_lines (prepared_text name f) (line_cap pol name)"
    using assms by (auto simp: read_with_rules_def prepared_text_def line_cap_def Let_def)
  have "head_lines t n =
      (if n < length (splitlines t) then join [NL] (take n (splitlines t)) @ TRUNCATED else t)"
    for t n
    by (simp add: head_lines_def Let_def)
  then show ?thesis
    unfolding rw
    by (simp add: endswith_append line_cap_def LOCK_MAX_LINES_def CONFIG_MAX_LINES_def
        prepared_text_def)
qed

theorem read_with_rules_line_cap_witness:
  "is_lock_like sample_policy (str ''yarn.lock'')
   \<and> line_cap sample_policy (str ''yarn.lock'') = 200
   \<and> length (splitlines (prepared_text (str ''yarn.lock'') env_lock_file)) = 201
   \<and> read_with_rules sample_policy (str ''yarn.lock'') env_lock_file
       = join [NL] (replicate 200 (str ''A=1'')) @ TRUNCATED
   \<and> endswith (read_with_rules sample_policy (str ''yarn.lock'') env_lock_file) TRUNCATED"
proof -
  have lock: "is_lock_like sample_policy (str ''yarn.lock'')"
    by (simp add: is_lock_like_def sample_policy_def)
  have "\<not> startswith (str ''yarn.lock'') (str ''.env'')"
    by (simp add: startswith_def str_def)
  then have prep: "prepared_text (str ''yarn.lock'') env_lock_file
      = read_bytes_as_text env_lock_file MAX_FILE_BYTES"
    by (simp add: prepared_text_def)
  have lines: "splitlines (prepared_text (str ''yarn.lock'') env_lock_file)
      = replicate 200 (str ''A=1'') @ [[]]"
    by (simp add: prep env_lock_lines)
  have cap: "line_cap sample_policy (str ''yarn.lock'') = 200"
    using lock by (simp add: line_cap_def LOCK_MAX_LINES_def)
  show ?thesis
    using read_with_rules_line_cap[of sample_policy "str ''yarn.lock''" env_lock_file] lock
    by (simp add: lines cap endswith_append)
qed

text \<open>
  C4 as stated fails on a capped file whose basename starts with \<open>.env\<close>: the decoded
  text of the sample file has 201 lines, one more than the cap of a lock-like file, yet
  the stored content is the 200 redacted assignments and a newline, without the marker.
\<close>

theorem read_with_rules_env_lock_counterexample:
  "is_lock_like sample_policy (str ''.env.lock'')
   \<and> LOCK_MAX_LINES = 200
   \<and> length (splitlines (read_bytes_as_text env_lock_file MAX_FILE_BYTES)) = 201
   \<and> read_with_rules sample_policy (str ''.env.lock'') env_lock_file
       = join [NL] (replicate 200 (str ''A=<YOUR_VALUE>'')) @ [NL]
   \<and> \<not> endswith (read_with_rules sample_policy (str ''.env.lock'') env_lock_file) TRUNCATED"
proof -
  let ?c = "join [NL] (replicate 200 (str ''A=<YOUR_VALUE>''))"
  have lock: "is_lock_like sample_policy (str ''.env.lock'')"
    by (simp add: is_lock_like_def suffix_env_lock)
  have env: "startswith (str ''.env.lock'') (str ''.env'')"
    by (simp add: startswith_def str_def)
  have "read_with_rules sample_policy (str ''.env.lock'') env_lock_file
      = join [NL] (replicate 200 (str ''A=<YOUR_VALUE>'') @ [[]])"
    using lock env
    by (simp add: read_with_rules_def head_lines_def env_lock_sanitized_lines
        env_lock_sanitized LOCK_MAX_LINES_def Let_def)
  then have content: "read_with_rules sample_policy (str ''.env.lock'') env_lock_file = ?c @ [NL]"
    by (simp add: join_snoc_blank)
  have "\<not> endswith (?c @ [NL]) TRUNCATED"
  proof
    assume "endswith (?c @ [NL]) TRUNCATED"
    then have "endswith (butlast (?c @ [NL])) (butlast TRUNCATED)"
      by (rule endswith_butlast) (simp add: TRUNCATED_def)
    then have "last ?c = last (butlast TRUNCATED)"
      using endswith_last[of ?c "butlast TRUNCATED"] by (simp add: TRUNCATED_def str_def)
    moreover have "last ?c = last (last (replicate 200 (str ''A=<YOUR_VALUE>'')))"
      using last_join[of "replicate 200 (str ''A=<YOUR_VALUE>'')"] by (simp add: str_def)
    ultimately show False by (simp add: TRUNCATED_def str_def)
  qed
  then show ?thesis
    using lock content by (simp add: LOCK_MAX_LINES_def env_lock_lines)
qed

section \<open>Claims on the selection policy\<close>

lemma select_loop_filter:
  "select_loop ps relevance selected =
     selected @ map (\<lambda>(a, src). selected_row a src)
                    (filter (\<lambda>(a, src). include_flag a \<and> score a \<ge> relevance) ps)"
  by (induction ps relevance selected rule: select_loop.induct) auto

text \<open>The item built for a pair: the assessment without its summary, and the content.\<close>

lemma selected_row_fields:
  "selected_row a src =
     [(''path'', PStr (if path a \<noteq> [] then path a else source src)),
      (''score'', PInt (score a)), (''include'', PBool (include_flag a)),
      (''reason'', PStr (reason a)), (''content'', PStr (content src))]"
  by (simp add: selected_row_def model_dump_def dict_pop_def Let_def)

lemma fallback_paths:
  "those (map (\<lambda>d. map_of d ''path'')
            (map (\<lambda>d. [(''path'', PStr (source d)), (''content'', PStr (content d))]) xs))
     = Some (map (\<lambda>d. PStr (source d)) xs)"
  by (induction xs) auto

lemma sample_collect:
  "collect sample_policy sample_tree False = Inr sample_docs"
proof -
  have w: "walk sample_policy [] sample_tree =
      [([], [(str ''app.py'', sample_file ''print(1)''),
             (str ''README.md'', sample_file ''# old''),
             (str ''.env'', sample_file ''API_KEY=secret123'')]),
       ([str ''src''], [(str ''b.py'', sample_file ''b = 2'')])]"
    by (simp add: sample_tree_def sample_policy_def str_def)
  have s: "sort_key fst [(str ''app.py'', sample_file ''print(1)''),
             (str ''README.md'', sample_file ''# old''),
             (str ''.env'', sample_file ''API_KEY=secret123'')] =
      [(str ''.env'', sample_file ''API_KEY=secret123''),
       (str ''README.md'', sample_file ''# old''),
       (str ''app.py'', sample_file ''print(1)'')]"
    by (simp add: str_def)
  show ?thesis
    unfolding collect_def w
    by (simp add: s suffix_def rfind_def DOT_def SLASH_def BACKSLASH_def relpath_def
        path_name_def lower_def should_include_def is_lock_like_def README_NAMES_def
        CONFIG_EXTS_def sample_policy_def string_eval read_with_rules_def
        read_bytes_as_text_def sample_file_def MAX_FILE_BYTES_def MAX_TOTAL_BYTES_def
        sample_docs_def)
qed

text \<open>
  C2. The selection \<open>build_selected\<close> returns consists of the items of exactly those
  pairs of \<open>zip(assessments, docs)\<close> whose assessment has \<open>include\<close> true and a score
  greater than or equal to the threshold, in the order of the pairs; the item of a pair
  holds the assessment's fields without the summary, and the document's content.
\<close>

theorem build_selected_iff:
  "fst (build_selected assess_files ds relevance) =
     map (\<lambda>(a, src).
            [(''path'', PStr (if path a \<noteq> [] then path a else source src)),
             (''score'', PInt (score a)), (''include'', PBool (include_flag a)),
             (''reason'', PStr (reason a)), (''content'', PStr (content src))])
         (filter (\<lambda>(a, src). include_flag a \<and> score a \<ge> relevance)
                 (zip (assess_files ds) ds))
   \<and> snd (build_selected assess_files ds relevance) = assess_files ds"
  by (simp add: build_selected_def Let_def select_loop_filter selected_row_fields)

theorem build_selected_iff_witness:
  "fst (build_selected sample_assess sample_docs 3) =
     [[(''path'', PStr (str ''app.py'')), (''score'', PInt 4), (''include'', PBool True),
       (''reason'', PStr (str ''r'')), (''content'', PStr (str ''print(1)''))]]"
  using build_selected_iff[of sample_assess sample_docs 3]
  by (simp add: sample_assess_def sample_docs_def str_def)

text \<open>
  C3. When documents were collected and no pair of \<open>zip(assessments, docs)\<close> has
  \<open>include\<close> true and a score greater than or equal to the threshold, \<open>api_generate\<close>
  hands the synthesizer the list of all collected documents in their order, each as an
  item with the two keys \<open>path\<close> and \<open>content\<close>, and reports their paths and their
  number.
\<close>

theorem api_generate_fallback:
  assumes "raw_path \<noteq> []"
    and "collect pol root False = Inr ds"
    and "ds \<noteq> []"
    and "filter (\<lambda>(a, src). include_flag a \<and> score a \<ge> relevance)
           (zip (assess_files ds) ds) = []"
  shows "fst (build_selected assess_files ds relevance) = []
    \<and> api_generate pol assess_files generate_readme_from raw_path (Some root) relevance =
        Inr \<lparr>readme = generate_readme_from
                 (map (\<lambda>d. [(''path'', PStr (source d)), (''content'', PStr (content d))]) ds),
             selected_paths = map (\<lambda>d. PStr (source d)) ds,
             count_collected = length ds,
             count_selected = length ds\<rparr>"
proof -
  let ?rows = "map (\<lambda>d. [(''path'', PStr (source d)), (''content'', PStr (content d))]) ds"
  have empty: "fst (build_selected assess_files ds relevance) = []"
    using assms(4) by (simp add: build_selected_def Let_def select_loop_filter)
  have paths: "those (map (\<lambda>d. map_of d ''path'') ?rows) = Some (map (\<lambda>d. PStr (source d)) ds)"
    by (rule fallback_paths)
  obtain sel asm where b: "build_selected assess_files ds relevance = (sel, asm)"
    by (cases "build_selected assess_files ds relevance")
  then have "sel = []" using empty by simp
  then show ?thesis
    using assms(1,2,3) b paths empty by (simp add: api_generate_def Let_def)
qed

theorem api_generate_fallback_witness:
  "str ''/srv/project'' \<noteq> []
   \<and> collect sample_policy sample_tree False = Inr sample_docs
   \<and> sample_docs \<noteq> []
   \<and> fst (build_selected reject_all sample_docs 3) = []
   \<and> api_generate sample_policy reject_all list_paths (str ''/srv/project'')
        (Some sample_tree) 3 =
      Inr \<lparr>readme = str ''.env\<newline>app.py\<newline>src/b.py'',
           selected_paths = [PStr (str ''.env''), PStr (str ''app.py''), PStr (str ''src/b.py'')],
           count_collected = 3, count_selected = 3\<rparr>"
proof -
  have 1: "str ''/srv/project'' \<noteq> []" by (simp add: str_def)
  have 2: "sample_docs \<noteq> []" by (simp add: sample_docs_def)
  have 3: "filter (\<lambda>(a, src). include_flag a \<and> score a \<ge> 3)
      (zip (reject_all sample_docs) sample_docs) = []"
    by (simp add: sample_docs_def reject_all_def)
  show ?thesis
    using api_generate_fallback
      [of "str ''/srv/project''" sample_policy sample_tree sample_docs 3 reject_all list_paths]
      1 2 3 sample_collect
    by simp (simp add: sample_docs_def list_paths_def str_def NL_def)
qed

section \<open>The collection loop\<close>

lemma collect_files_scan:
  "collect_files pol ir dp files st = scan st (concat (map (visit pol ir dp) files))"
proof (induction files arbitrary: st)
  case Nil
  then show ?case by simp
next
  case (Cons e files)
  obtain fn f where e: "e = (fn, f)" by (cases e)
  show ?case
  proof (cases "is_file f")
    case (Inl x)
    then show ?thesis by (simp add: e visit_def)
  next
    case (Inr regular)
    then show ?thesis
      using Cons.IH by (auto simp: e visit_def eligible_def mkdoc_def Let_def)
  qed
qed

lemma scan_append:
  "scan st (xs @ ys) =
     (case scan st xs of Raised x \<Rightarrow> Raised x | Returned r \<Rightarrow> Returned r
      | Running st' \<Rightarrow> scan st' ys)"
  by (induction st xs rule: scan.induct) (auto simp: Let_def)

lemma collect_dirs_scan:
  "collect_dirs pol ir ws st = result_of (scan st (concat (map (dir_events pol ir) ws)))"
proof (induction ws arbitrary: st)
  case Nil
  then show ?case by (simp add: result_of_def)
next
  case (Cons w ws)
  obtain dp files where w: "w = (dp, files)" by (cases w)
  show ?case
    by (cases "scan st (dir_events pol ir (dp, files))")
       (simp_all add: w collect_files_scan scan_append Cons.IH result_of_def dir_events_def)
qed

lemma collect_scan:
  "collect pol root ir = result_of (scan \<lparr>docs = [], seen = {}, total = 0\<rparr> (events pol ir root))"
  by (simp add: collect_def collect_dirs_scan events_def)

text \<open>A run that returns: what it returns. A run that raises: the exception of an event.\<close>

lemma scan_returns:
  "result_of (scan st es) = Inr ds \<Longrightarrow>
   ds = docs st @ until_budget (total st) (first_wins (seen st) (cands_of es))"
  by (induction st es arbitrary: ds rule: scan.induct)
     (auto simp: Let_def result_of_def split: if_splits)


lemma scan_no_failure:
  "no_failure es \<Longrightarrow>
   result_of (scan st es) = Inr (docs st @ until_budget (total st) (first_wins (seen st) (cands_of es)))"
  by (induction st es rule: scan.induct) (auto simp: Let_def result_of_def)

lemma cands_of_append: "cands_of (xs @ ys) = cands_of xs @ cands_of ys"
  by (induction xs rule: cands_of.induct) auto

lemma cands_of_concat: "cands_of (concat xss) = concat (map cands_of xss)"
  by (induction xss) (auto simp: cands_of_append)

lemma cands_of_visit:
  "cands_of (visit pol ir dp e) = (if eligible pol ir dp e then [mkdoc pol dp e] else [])"
  by (cases "is_file (snd e)") (auto simp: visit_def eligible_def)

lemma cands_of_dir_events: "cands_of (dir_events pol ir d) = dir_candidates pol ir d"
proof -
  have "concat (map (\<lambda>e. cands_of (visit pol ir dp e)) xs)
      = map (mkdoc pol dp) (filter (eligible pol ir dp) xs)" for dp xs
    by (induction xs) (auto simp: cands_of_visit)
  then show ?thesis
    by (simp add: dir_events_def dir_candidates_def cands_of_concat comp_def)
qed

lemma cands_of_events: "cands_of (events pol ir root) = candidates pol ir root"
  by (simp add: events_def candidates_def cands_of_concat comp_def cands_of_dir_events)

text \<open>
  What \<open>collect\<close> returns when it returns: the candidate documents in the order of the
  visit, without those whose source came before, up to the one with which the budget is
  reached. It returns whenever no \<open>is_file\<close> of the visit raises, and raises only what an
  \<open>is_file\<close> of the visit raises.
\<close>

lemma collect_eq:
  "collect pol root ir = Inr ds \<Longrightarrow>
   ds = until_budget 0 (first_wins {} (candidates pol ir root))"
  using scan_returns[of "\<lparr>docs = [], seen = {}, total = 0\<rparr>" "events pol ir root" ds]
  by (simp add: collect_scan cands_of_events)

lemma collect_total:
  "no_failure (events pol ir root) \<Longrightarrow>
   collect pol root ir = Inr (until_budget 0 (first_wins {} (candidates pol ir root)))"
  using scan_no_failure[of "events pol ir root" "\<lparr>docs = [], seen = {}, total = 0\<rparr>"]
  by (simp add: collect_scan cands_of_events)


lemma first_wins_sources:
  "distinct (map source (first_wins sn cs)) \<and> source ` set (first_wins sn cs) \<inter> sn = {}"
  by (induction cs arbitrary: sn) auto

lemma first_wins_fresh: "d \<in> set (first_wins sn cs) \<Longrightarrow> source d \<notin> sn"
  using first_wins_sources[of sn cs] by blast

lemma first_wins_find:
  "d \<in> set (first_wins sn cs) \<Longrightarrow> find (\<lambda>c. source c = source d) cs = Some d"
proof (induction cs arbitrary: sn)
  case Nil
  then show ?case by simp
next
  case (Cons c cs)
  show ?case
  proof (cases "source c \<in> sn")
    case True
    then have d: "d \<in> set (first_wins sn cs)" using Cons.prems by simp
    then have "source d \<notin> sn" by (rule first_wins_fresh)
    then have "source c \<noteq> source d" using True by auto
    then show ?thesis using Cons.IH[OF d] by simp
  next
    case False
    show ?thesis
    proof (cases "d = c")
      case True
      then show ?thesis by simp
    next
      case different: False
      then have d: "d \<in> set (first_wins (insert (source c) sn) cs)"
        using Cons.prems False by simp
      then have "source d \<notin> insert (source c) sn" by (rule first_wins_fresh)
      then have "source c \<noteq> source d" by auto
      then show ?thesis using Cons.IH[OF d] by simp
    qed
  qed
qed

text \<open>Every source that is not excluded is represented, and the order is that of the input.\<close>

lemma first_wins_all_sources: "source ` set (first_wins sn cs) = source ` set cs - sn"
  by (induction cs arbitrary: sn) auto

lemma first_wins_subseq: "first_wins sn cs \<in> set (subseqs cs)"
  by (induction cs arbitrary: sn) (auto simp: Let_def)

text \<open>An initial part of a list without duplicates is that of an initial part of the list.\<close>

lemma first_wins_prefix:
  "first_wins sn cs = p @ r \<Longrightarrow> \<exists>n. p = first_wins sn (take n cs)"
proof (induction cs arbitrary: sn p)
  case Nil
  then show ?case by simp
next
  case (Cons c cs)
  note split = Cons.prems and IH = Cons.IH
  show ?case
  proof (cases "source c \<in> sn")
    case True
    then have "first_wins sn cs = p @ r" using split by simp
    then obtain n where "p = first_wins sn (take n cs)" using IH by blast
    then have "p = first_wins sn (take (Suc n) (c # cs))" using True by simp
    then show ?thesis by blast
  next
    case False
    show ?thesis
    proof (cases p)
      case Nil
      then have "p = first_wins sn (take 0 (c # cs))" by simp
      then show ?thesis by blast
    next
      case (Cons d p')
      have "first_wins sn (c # cs) = c # first_wins (insert (source c) sn) cs"
        using False by simp
      then have "c # first_wins (insert (source c) sn) cs = d # (p' @ r)"
        using split Cons by (simp only: append_Cons)
      then have both: "c = d \<and> first_wins (insert (source c) sn) cs = p' @ r"
        by (rule list.inject[THEN iffD1])
      have dc: "d = c" using both by blast
      have rest: "first_wins (insert (source c) sn) cs = p' @ r" using both by (rule conjunct2)
      obtain n where "p' = first_wins (insert (source c) sn) (take n cs)"
        using IH[OF rest] by blast
      then have "p = first_wins sn (take (Suc n) (c # cs))"
        using False Cons dc by simp
      then show ?thesis by blast
    qed
  qed
qed

lemma until_budget_prefix: "\<exists>rest. cs = until_budget n cs @ rest"
  by (induction cs arbitrary: n) auto

lemma until_budget_butlast:
  "n < MAX_TOTAL_BYTES \<Longrightarrow> n + total_length (butlast (until_budget n cs)) < MAX_TOTAL_BYTES"
proof (induction cs arbitrary: n)
  case Nil
  then show ?case by (simp add: total_length_def)
next
  case (Cons c cs)
  show ?case
  proof (cases "n + length (content c) \<ge> MAX_TOTAL_BYTES")
    case True
    then show ?thesis using Cons.prems by (simp add: total_length_def)
  next
    case False
    then have small: "n + length (content c) < MAX_TOTAL_BYTES" by simp
    show ?thesis
    proof (cases "until_budget (n + length (content c)) cs = []")
      case True
      then show ?thesis using False Cons.prems by (simp add: total_length_def)
    next
      case nonempty: False
      then show ?thesis
        using False Cons.IH[OF small] by (simp add: total_length_def add.assoc)
    qed
  qed
qed

lemma until_budget_all_or_full:
  "until_budget n cs = cs \<or> MAX_TOTAL_BYTES \<le> n + total_length (until_budget n cs)"
proof (induction cs arbitrary: n)
  case Nil
  then show ?case by simp
next
  case (Cons c cs)
  show ?case
    using Cons.IH[of "n + length (content c)"]
    by (auto simp: total_length_def add.assoc)
qed

text \<open>The result as the de-duplication of an initial part of the visit.\<close>

lemma until_budget_first_wins_take:
  "\<exists>n. until_budget 0 (first_wins {} cs) = first_wins {} (take n cs)
     \<and> (n = length cs \<or> MAX_TOTAL_BYTES \<le> total_length (until_budget 0 (first_wins {} cs)))"
proof (cases "until_budget 0 (first_wins {} cs) = first_wins {} cs")
  case True
  then have "until_budget 0 (first_wins {} cs) = first_wins {} (take (length cs) cs)" by simp
  then show ?thesis by blast
next
  case False
  then have full: "MAX_TOTAL_BYTES \<le> total_length (until_budget 0 (first_wins {} cs))"
    using until_budget_all_or_full[of 0 "first_wins {} cs"] by simp
  obtain rest where "first_wins {} cs = until_budget 0 (first_wins {} cs) @ rest"
    using until_budget_prefix by blast
  then obtain n where "until_budget 0 (first_wins {} cs) = first_wins {} (take n cs)"
    using first_wins_prefix by blast
  then show ?thesis using full by blast
qed

section \<open>Claims on the tree collector\<close>

text \<open>The definitions a concrete path is evaluated with.\<close>

lemmas path_eval =
  suffix_def rfind_def DOT_def SLASH_def BACKSLASH_def relpath_def path_name_def lower_def
  should_include_def is_lock_like_def README_NAMES_def CONFIG_EXTS_def sample_policy_def
  eligible_def mkdoc_def visit_def dir_events_def events_def startswith_def str_def

lemma no_failure_Cand: "no_failure (map Cand cs)"
  by (induction cs) auto

lemma cands_of_Cand: "cands_of (map Cand cs) = cs"
  by (induction cs) auto

lemma collect_of_events:
  assumes "events pol ir root = map Cand cs"
  shows "collect pol root ir = Inr (until_budget 0 (first_wins {} cs))"
    and "candidates pol ir root = cs"
proof -
  show c: "candidates pol ir root = cs"
    using cands_of_events[of pol ir root] by (simp add: assms cands_of_Cand)
  show "collect pol root ir = Inr (until_budget 0 (first_wins {} cs))"
    using collect_total[of pol ir root] by (simp add: assms no_failure_Cand c)
qed

lemma subseqs_Nil: "[] \<in> set (subseqs xs)"
  by (induction xs) (auto simp: Let_def)

lemma subseqs_append: "xs \<in> set (subseqs as) \<Longrightarrow> xs \<in> set (subseqs (as @ bs))"
  by (induction as arbitrary: xs) (auto simp: Let_def subseqs_Nil)

lemma subseqs_take: "xs \<in> set (subseqs (take n zs)) \<Longrightarrow> xs \<in> set (subseqs zs)"
  using subseqs_append[of xs "take n zs" "drop n zs"] by simp

lemma clash_events:
  "events sample_policy False clash_tree =
     map Cand
       [\<lparr>source = str ''a/b.py'', content = str ''first''\<rparr>,
        \<lparr>source = str ''a/b.py'', content = str ''second''\<rparr>,
        \<lparr>source = str ''a/c.py'', content = str ''third''\<rparr>]"
  by (simp add: clash_tree_def path_eval read_with_rules_def read_bytes_as_text_def
      sample_file_def MAX_FILE_BYTES_def)

lemma clash_collect:
  "collect sample_policy clash_tree False =
     Inr [\<lparr>source = str ''a/b.py'', content = str ''first''\<rparr>,
          \<lparr>source = str ''a/c.py'', content = str ''third''\<rparr>]"
  unfolding collect_of_events(1)[OF clash_events]
  by (simp add: str_def MAX_TOTAL_BYTES_def)

lemma utf8_big: "utf8_ignore (replicate 524287 120) = replicate 524287 120"
  by (rule utf8_ignore_ascii) simp

lemma big_raw: "read_bytes_as_text big_file MAX_FILE_BYTES = replicate 524287 120"
  by (simp add: read_bytes_as_text_def big_file_def MAX_FILE_BYTES_def utf8_big)

lemma big_read:
  assumes "\<not> startswith n (str ''.env'')" "\<not> is_lock_like sample_policy n"
    "suffix n \<notin> CONFIG_EXTS"
  shows "read_with_rules sample_policy n big_file = replicate 524287 120"
  using assms by (simp add: read_with_rules_def big_raw)

lemma big_file_is_file: "is_file big_file = Inr True"
  by (simp add: big_file_def)

lemma big_read_py:
  "read_with_rules sample_policy (str [c, CHR ''.'', CHR ''p'', CHR ''y'']) big_file
     = replicate 524287 120"
  by (rule big_read) (simp_all add: path_eval)

lemma big_walk:
  "walk sample_policy [] big_tree =
     [([], map (\<lambda>n. (str n, big_file))
             [''a.py'', ''b.py'', ''c.py'', ''d.py'', ''e.py'', ''f.py'', ''g.py'', ''h.py'',
              ''i.py'', ''j.py'', ''k.py''])]"
  by (simp add: big_tree_def)

lemma big_sorted:
  "sort_key fst (map (\<lambda>n. (str n, big_file))
       [''a.py'', ''b.py'', ''c.py'', ''d.py'', ''e.py'', ''f.py'', ''g.py'', ''h.py'',
        ''i.py'', ''j.py'', ''k.py''])
   = map (\<lambda>n. (str n, big_file))
       [''a.py'', ''b.py'', ''c.py'', ''d.py'', ''e.py'', ''f.py'', ''g.py'', ''h.py'',
        ''i.py'', ''j.py'', ''k.py'']"
  by (simp add: str_def)

lemma big_visit:
  "visit sample_policy False [] (str [c, CHR ''.'', CHR ''p'', CHR ''y''], big_file)
     = [Cand \<lparr>source = str [c, CHR ''.'', CHR ''p'', CHR ''y''],
              content = replicate 524287 120\<rparr>]"
  if "c \<in> set ''abcdefghijk''" for c
proof -
  have "eligible sample_policy False [] (str [c, CHR ''.'', CHR ''p'', CHR ''y''], big_file)"
    using that
    by (auto simp add: suffix_def rfind_def DOT_def SLASH_def BACKSLASH_def relpath_def
        path_name_def lower_def should_include_def README_NAMES_def sample_policy_def
        eligible_def startswith_def str_def big_file_is_file)
  moreover have "mkdoc sample_policy [] (str [c, CHR ''.'', CHR ''p'', CHR ''y''], big_file)
     = \<lparr>source = str [c, CHR ''.'', CHR ''p'', CHR ''y''], content = replicate 524287 120\<rparr>"
    using that big_read_py[of c] by (auto simp add: mkdoc_def relpath_def BACKSLASH_def str_def)
  ultimately show ?thesis by (simp add: visit_def big_file_is_file)
qed

lemma concat_singletons: "\<forall>x\<in>set xs. g x = [h x] \<Longrightarrow> concat (map g xs) = map h xs"
  by (induction xs) auto

lemma big_events: "events sample_policy False big_tree = map Cand big_docs"
proof -
  let ?names = "[''a.py'', ''b.py'', ''c.py'', ''d.py'', ''e.py'', ''f.py'', ''g.py'', ''h.py'',
        ''i.py'', ''j.py'', ''k.py'']"
  let ?files = "map (\<lambda>n. (str n, big_file)) ?names"
  have names: "\<exists>c. c \<in> set ''abcdefghijk'' \<and> n = [c, CHR ''.'', CHR ''p'', CHR ''y'']"
    if "n \<in> set ?names" for n
    using that by auto
  have "events sample_policy False big_tree = dir_events sample_policy False ([], ?files)"
    unfolding events_def big_walk by (simp only: list.map concat.simps append_Nil2)
  also have "\<dots> = concat (map (visit sample_policy False []) ?files)"
    unfolding dir_events_def by (simp only: fst_conv snd_conv big_sorted)
  also have "\<dots> = concat (map (\<lambda>n. visit sample_policy False [] (str n, big_file)) ?names)"
    by (simp only: map_map comp_def)
  also have "\<dots> = map (\<lambda>n. Cand \<lparr>source = str n, content = replicate 524287 120\<rparr>) ?names"
  proof (rule concat_singletons, rule ballI)
    fix n assume "n \<in> set ?names"
    then show "visit sample_policy False [] (str n, big_file)
        = [Cand \<lparr>source = str n, content = replicate 524287 120\<rparr>]"
      using names big_visit by blast
  qed
  also have "\<dots> = map Cand big_docs"
    unfolding big_docs_def by (simp only: map_map comp_def)
  finally show ?thesis .
qed

lemma big_first_wins: "first_wins {} big_docs = big_docs"
  by (simp add: big_docs_def str_def)

lemma big_until: "until_budget 0 big_docs = big_docs"
  by (simp add: big_docs_def MAX_TOTAL_BYTES_def)

lemma big_collect: "collect sample_policy big_tree False = Inr big_docs"
  unfolding collect_of_events(1)[OF big_events] big_first_wins big_until ..

lemma big_totals:
  "length big_docs = 11 \<and> total_length big_docs = 5767157
   \<and> total_length (butlast big_docs) = 5242870"
  by (simp add: big_docs_def total_length_def)

text \<open>
  C7. When \<open>collect\<close> returns, no two of the documents have the same normalized relative
  source path, and each of them is the first candidate of the visit with its path. The
  documents are what is left of an initial part of the visit when every candidate whose
  path came before is skipped: every path of that part is represented, in the order of
  the visit, and the part is the whole visit unless the budget was reached. \<open>collect\<close>
  returns whenever no \<open>is_file\<close> of the visit raises.
\<close>

theorem collect_no_duplicate_sources:
  "(collect pol root ir = Inr ds \<longrightarrow>
      distinct (map source ds)
      \<and> (\<forall>d\<in>set ds. find (\<lambda>c. source c = source d) (candidates pol ir root) = Some d)
      \<and> (\<exists>n. ds = first_wins {} (take n (candidates pol ir root))
             \<and> source ` set ds = source ` set (take n (candidates pol ir root))
             \<and> (n = length (candidates pol ir root) \<or> MAX_TOTAL_BYTES \<le> total_length ds))
      \<and> ds \<in> set (subseqs (candidates pol ir root)))
   \<and> (no_failure (events pol ir root) \<longrightarrow> (\<exists>ds. collect pol root ir = Inr ds))"
proof -
  let ?cs = "candidates pol ir root"
  have "distinct (map source ds)
      \<and> (\<forall>d\<in>set ds. find (\<lambda>c. source c = source d) ?cs = Some d)
      \<and> (\<exists>n. ds = first_wins {} (take n ?cs)
             \<and> source ` set ds = source ` set (take n ?cs)
             \<and> (n = length ?cs \<or> MAX_TOTAL_BYTES \<le> total_length ds))
      \<and> ds \<in> set (subseqs ?cs)"
    if "collect pol root ir = Inr ds"
  proof -
    have ds: "ds = until_budget 0 (first_wins {} ?cs)" using that by (rule collect_eq)
    obtain n where n: "ds = first_wins {} (take n ?cs)"
      and whole: "n = length ?cs \<or> MAX_TOTAL_BYTES \<le> total_length ds"
      using until_budget_first_wins_take[of ?cs] ds by auto
    have "distinct (map source ds)" unfolding n using first_wins_sources by blast
    moreover have "find (\<lambda>c. source c = source d) ?cs = Some d" if "d \<in> set ds" for d
    proof -
      obtain rest where "first_wins {} ?cs = ds @ rest"
        using until_budget_prefix[of "first_wins {} ?cs" 0] ds by auto
      then have "d \<in> set (first_wins {} ?cs)" using that by simp
      then show ?thesis by (rule first_wins_find)
    qed
    moreover have "source ` set ds = source ` set (take n ?cs)"
      unfolding n by (simp add: first_wins_all_sources)
    moreover have "ds \<in> set (subseqs ?cs)"
      unfolding n by (rule subseqs_take[OF first_wins_subseq])
    ultimately show ?thesis using n whole by blast
  qed
  moreover have "\<exists>ds. collect pol root ir = Inr ds" if "no_failure (events pol ir root)"
    using collect_total[OF that] by blast
  ultimately show ?thesis by blast
qed

theorem collect_no_duplicate_sources_witness:
  "candidates sample_policy False clash_tree =
     [\<lparr>source = str ''a/b.py'', content = str ''first''\<rparr>,
      \<lparr>source = str ''a/b.py'', content = str ''second''\<rparr>,
      \<lparr>source = str ''a/c.py'', content = str ''third''\<rparr>]
   \<and> collect sample_policy clash_tree False =
       Inr [\<lparr>source = str ''a/b.py'', content = str ''first''\<rparr>,
            \<lparr>source = str ''a/c.py'', content = str ''third''\<rparr>]
   \<and> distinct (map source [\<lparr>source = str ''a/b.py'', content = str ''first''\<rparr>,
                             \<lparr>source = str ''a/c.py'', content = str ''third''\<rparr>])"
proof -
  let ?ds = "[\<lparr>source = str ''a/b.py'', content = str ''first''\<rparr>,
              \<lparr>source = str ''a/c.py'', content = str ''third''\<rparr>]"
  have "distinct (map source ?ds)"
    using collect_no_duplicate_sources[of sample_policy clash_tree False ?ds] clash_collect
    by blast
  then show ?thesis
    using clash_collect collect_of_events(2)[OF clash_events] by simp
qed

text \<open>
  C1, as amended. When \<open>collect\<close> returns, the content lengths of all returned documents
  but the last sum to less than the budget \<open>MAX_TOTAL_BYTES\<close>, so the total exceeds the
  budget by less than the length of the last document. The returned list is an initial
  part of the full collection without duplicates, and it is the whole of it unless the
  total has reached the budget. \<open>collect\<close> returns whenever no \<open>is_file\<close> of the visit
  raises.
\<close>

theorem collect_budget:
  "(collect pol root ir = Inr ds \<longrightarrow>
      total_length (butlast ds) < MAX_TOTAL_BYTES
      \<and> (\<exists>rest. first_wins {} (candidates pol ir root) = ds @ rest)
      \<and> (ds = first_wins {} (candidates pol ir root)
           \<or> MAX_TOTAL_BYTES \<le> total_length ds))
   \<and> (no_failure (events pol ir root) \<longrightarrow> (\<exists>ds. collect pol root ir = Inr ds))"
proof -
  have "total_length (butlast ds) < MAX_TOTAL_BYTES
      \<and> (\<exists>rest. first_wins {} (candidates pol ir root) = ds @ rest)
      \<and> (ds = first_wins {} (candidates pol ir root)
           \<or> MAX_TOTAL_BYTES \<le> total_length ds)"
    if "collect pol root ir = Inr ds"
  proof -
    have ds: "ds = until_budget 0 (first_wins {} (candidates pol ir root))"
      using that by (rule collect_eq)
    have "0 < MAX_TOTAL_BYTES" by (simp add: MAX_TOTAL_BYTES_def)
    from until_budget_butlast[OF this]
    have "total_length (butlast ds) < MAX_TOTAL_BYTES" by (simp add: ds)
    moreover have "\<exists>rest. first_wins {} (candidates pol ir root) = ds @ rest"
      using until_budget_prefix by (simp add: ds)
    moreover have "ds = first_wins {} (candidates pol ir root)
        \<or> MAX_TOTAL_BYTES \<le> total_length ds"
      using until_budget_all_or_full[of 0] by (simp add: ds)
    ultimately show ?thesis by blast
  qed
  moreover have "\<exists>ds. collect pol root ir = Inr ds" if "no_failure (events pol ir root)"
    using collect_total[OF that] by blast
  ultimately show ?thesis by blast
qed

theorem collect_budget_witness:
  "collect sample_policy big_tree False = Inr big_docs
   \<and> total_length (butlast big_docs) = 5242870
   \<and> total_length (butlast big_docs) < MAX_TOTAL_BYTES
   \<and> MAX_TOTAL_BYTES \<le> total_length big_docs"
proof -
  have "total_length (butlast big_docs) < MAX_TOTAL_BYTES"
    using collect_budget[of sample_policy big_tree False big_docs] big_collect by blast
  then show ?thesis
    using big_collect big_totals by (simp add: MAX_TOTAL_BYTES_def)
qed

text \<open>
  C1 as stated fails: the check against the budget comes after the document is
  appended. Ten sources of 524287 bytes stay below the budget of 5242880, and the
  eleventh is still collected.
\<close>

theorem collect_budget_counterexample:
  "collect sample_policy big_tree False = Inr big_docs
   \<and> length big_docs = 11
   \<and> total_length big_docs = 5767157
   \<and> MAX_TOTAL_BYTES = 5242880
   \<and> MAX_TOTAL_BYTES < total_length big_docs"
  using big_collect big_totals by (simp add: MAX_TOTAL_BYTES_def)

section \<open>Claims on the walk: listing order and read errors\<close>
































end

